theory Spec2Isabelle
  imports Main "HOL-Library.Multiset"
begin

section \<open>The binary heap of \<open>src/data-structures/heap.js\<close>\<close>

text \<open>
  The JavaScript object \<open>Heap\<close> has two fields: the backing array \<open>_heap\<close> and the
  comparison function \<open>_cmp\<close>.  The array is modelled as a dense list, the comparison
  function as a pure total function into \<open>int\<close>; the code only ever tests its result
  with \<open>> 0\<close>.  Indices are natural numbers.  Every method takes the object and returns
  its result together with the object after the call.
\<close>

record 'a Heap =
  heap :: "'a list"
  cmp :: "'a \<Rightarrow> 'a \<Rightarrow> int"

text \<open>
  The constructor: \<open>this._heap = []\<close>, and \<open>this._cmp\<close> is the argument when it is a
  function, otherwise \<open>function (a, b) { return a - b; }\<close>.  The default comparison
  subtracts, so its elements are plain numbers, modelled as \<open>int\<close> (no \<open>NaN\<close>, no
  infinities).  Elements of any other kind are compared by the caller's function, and
  \<open>indexOf\<close> finds them by equality.
\<close>

definition default_cmp :: "int \<Rightarrow> int \<Rightarrow> int" where
  "default_cmp a b = a - b"

definition new_Heap :: "('a \<Rightarrow> 'a \<Rightarrow> int) \<Rightarrow> 'a Heap" where
  "new_Heap c = \<lparr>heap = [], cmp = c\<rparr>"

definition new_Heap_default :: "int Heap" where
  "new_Heap_default = \<lparr>heap = [], cmp = default_cmp\<rparr>"

subsection \<open>\<open>_heapify\<close>\<close>

text \<open>\<open>Math.floor((index - 1) / 2)\<close>; it is only ever read when \<open>index > 0\<close>.\<close>

definition parent :: "nat \<Rightarrow> nat" where
  "parent index = (index - 1) div 2"

text \<open>
  The first half of \<open>_heapify\<close>: the variable \<open>largest\<close> after the two tests.  The
  left child is compared with the node at \<open>index\<close>, the right child with the node at
  the current \<open>largest\<close>.
\<close>

definition largest :: "('a \<Rightarrow> 'a \<Rightarrow> int) \<Rightarrow> nat \<Rightarrow> 'a list \<Rightarrow> nat" where
  "largest c index xs =
     (let left = 2 * index + 1;
          right = 2 * index + 2;
          l1 = (if left < length xs \<and> c (xs ! left) (xs ! index) > 0 then left else index)
      in if right < length xs \<and> c (xs ! right) (xs ! l1) > 0 then right else l1)"

text \<open>
  The second half: when \<open>largest !== index\<close> the two slots are swapped and the method
  calls itself on \<open>largest\<close>.
\<close>

function heapify :: "('a \<Rightarrow> 'a \<Rightarrow> int) \<Rightarrow> nat \<Rightarrow> 'a list \<Rightarrow> 'a list" where
  "heapify c index xs =
     (if largest c index xs \<noteq> index
      then heapify c (largest c index xs)
             (xs[index := xs ! largest c index xs, largest c index xs := xs ! index])
      else xs)"
  by pat_completeness auto
termination
proof (relation "measure (\<lambda>(c, index, xs). length xs - index)")
  show "wf (measure (\<lambda>(c, index, xs). length xs - index))"
    by simp
next
  fix c :: "'a \<Rightarrow> 'a \<Rightarrow> int" and index :: nat and xs :: "'a list"
  assume ne: "largest c index xs \<noteq> index"
  have "index \<le> largest c index xs"
    by (simp add: largest_def Let_def)
  with ne have "index < largest c index xs"
    by simp
  moreover have "largest c index xs < length xs"
    using ne by (auto simp: largest_def Let_def split: if_splits)
  ultimately show
    "((c, largest c index xs,
       xs[index := xs ! largest c index xs, largest c index xs := xs ! index]),
      (c, index, xs)) \<in> measure (\<lambda>(c, index, xs). length xs - index)"
    by simp
qed

declare heapify.simps [simp del]

subsection \<open>\<open>changeKey\<close>\<close>

text \<open>
  The \<open>while\<close> loop of \<open>changeKey\<close>.  The source keeps \<open>parent\<close> in a variable of its
  own, which at every test of the loop condition equals \<open>Math.floor((index - 1) / 2)\<close>
  for the current \<open>index\<close>.  The loop returns the final \<open>index\<close> and the array.
\<close>

function changeKey_loop ::
  "('a \<Rightarrow> 'a \<Rightarrow> int) \<Rightarrow> 'a \<Rightarrow> nat \<Rightarrow> 'a list \<Rightarrow> nat \<times> 'a list" where
  "changeKey_loop c elem index xs =
     (if index > 0 \<and> c elem (xs ! parent index) > 0
      then changeKey_loop c elem (parent index)
             (xs[parent index := elem, index := xs ! parent index])
      else (index, xs))"
  by pat_completeness auto
termination
  by (relation "measure (\<lambda>(c, elem, index, xs). index)") (auto simp: parent_def)

declare changeKey_loop.simps [simp del]

text \<open>
  \<open>this._heap[index] = value\<close> on a dense array: a slot in range is overwritten, the
  slot one past the end is appended.  An index further out would leave holes in the
  JavaScript array, which a dense list cannot hold; \<open>changeKey\<close> yields \<open>None\<close> there.
\<close>

definition changeKey :: "nat \<Rightarrow> 'a \<Rightarrow> 'a Heap \<Rightarrow> (nat \<times> 'a Heap) option" where
  "changeKey index v h =
     (if index > length (heap h) then None
      else
        let xs = (if index < length (heap h) then (heap h)[index := v] else heap h @ [v]);
            elem = xs ! index;
            (index', ys) = changeKey_loop (cmp h) elem index xs
        in Some (index', h\<lparr>heap := heapify (cmp h) index' ys\<rparr>))"

subsection \<open>\<open>update\<close>, \<open>add\<close>, \<open>top\<close>, \<open>extract\<close>, \<open>getCollection\<close>, \<open>isEmpty\<close>\<close>

text \<open>
  The methods \<open>top\<close> and \<open>extract\<close> are named \<open>top_heap\<close> and \<open>extract_heap\<close> here,
  since the plain names are taken in Isabelle/HOL.
\<close>

text \<open>\<open>Array.prototype.indexOf\<close>: the first index holding the value, or \<open>-1\<close>.\<close>

fun indexOf :: "'a list \<Rightarrow> 'a \<Rightarrow> int" where
  "indexOf [] x = -1"
| "indexOf (y # ys) x =
     (if y = x then 0 else (let r = indexOf ys x in if r < 0 then -1 else r + 1))"

definition update :: "'a \<Rightarrow> 'a Heap \<Rightarrow> 'a Heap option" where
  "update node h =
     (let idx = indexOf (heap h) node
      in if idx \<ge> 0 then map_option snd (changeKey (nat idx) node h) else Some h)"

definition add :: "'a \<Rightarrow> 'a Heap \<Rightarrow> (nat \<times> 'a Heap) option" where
  "add v h =
     (let h1 = h\<lparr>heap := heap h @ [v]\<rparr>
      in changeKey (length (heap h1) - 1) v h1)"

text \<open>\<open>this._heap[0]\<close> is \<open>undefined\<close> on the empty array, here \<open>None\<close>.\<close>

definition top_heap :: "'a Heap \<Rightarrow> 'a option \<times> 'a Heap" where
  "top_heap h = (case heap h of [] \<Rightarrow> None | x # _ \<Rightarrow> Some x, h)"

datatype error = EmptyHeap

definition extract_heap :: "'a Heap \<Rightarrow> (error + 'a) \<times> 'a Heap" where
  "extract_heap h =
     (if length (heap h) = 0 then (Inl EmptyHeap, h)
      else
        let extr = heap h ! 0;
            last_elem = last (heap h);
            xs = butlast (heap h)
        in if length xs > 0
           then (Inr extr, h\<lparr>heap := heapify (cmp h) 0 (xs[0 := last_elem])\<rparr>)
           else (Inr extr, h\<lparr>heap := xs\<rparr>))"

definition getCollection :: "'a Heap \<Rightarrow> 'a list" where
  "getCollection h = heap h"

definition isEmpty :: "'a Heap \<Rightarrow> bool" where
  "isEmpty h = (length (heap h) = 0)"

subsection \<open>Sequences of calls\<close>

text \<open>
  A caller's sequence of public calls.  The run stops with \<open>None\<close> at the first call that
  does not complete: an \<open>extract\<close> that throws, or a \<open>changeKey\<close> whose index is not
  below the length.  A thrown \<open>extract\<close> leaves the object as it was, so a caller that
  catches the error and goes on reaches no state that a run without that call does not
  reach.
\<close>

datatype 'a op = Add 'a | Extract | ChangeKey nat 'a | Update 'a

fun run :: "'a Heap \<Rightarrow> 'a op list \<Rightarrow> 'a Heap option" where
  "run h [] = Some h"
| "run h (Add v # ops) =
     (case add v h of None \<Rightarrow> None | Some (_, h') \<Rightarrow> run h' ops)"
| "run h (Extract # ops) =
     (case extract_heap h of (Inl _, _) \<Rightarrow> None | (Inr _, h') \<Rightarrow> run h' ops)"
| "run h (ChangeKey i v # ops) =
     (if i < length (heap h)
      then (case changeKey i v h of None \<Rightarrow> None | Some (_, h') \<Rightarrow> run h' ops)
      else None)"
| "run h (Update v # ops) =
     (case update v h of None \<Rightarrow> None | Some h' \<Rightarrow> run h' ops)"

text \<open>\<open>extract\<close> called \<open>n\<close> times in a row: the results in order, and the object left.\<close>

fun extract_n :: "nat \<Rightarrow> 'a Heap \<Rightarrow> (error + 'a) list \<times> 'a Heap" where
  "extract_n 0 h = ([], h)"
| "extract_n (Suc n) h =
     (let (r, h') = extract_heap h;
          (rs, h'') = extract_n n h'
      in (r # rs, h''))"

subsection \<open>The heap property and the comparison function\<close>

text \<open>
  No child outranks its parent: \<open>cmp(elements[i], elements[parent(i)]) <= 0\<close> for every
  index \<open>i\<close> with \<open>0 < i < length\<close>.
\<close>

definition heap_property :: "('a \<Rightarrow> 'a \<Rightarrow> int) \<Rightarrow> 'a list \<Rightarrow> bool" where
  "heap_property c xs = list_all (\<lambda>i. c (xs ! i) (xs ! parent i) \<le> 0) [1..<length xs]"

text \<open>
  What the heap needs of its comparison function: of two elements one does not outrank
  the other, and not outranking is transitive.  Every total order read as a three-way
  comparison satisfies both; ties between different elements are allowed.
\<close>

definition consistent :: "('a \<Rightarrow> 'a \<Rightarrow> int) \<Rightarrow> bool" where
  "consistent c \<longleftrightarrow>
     (\<forall>a b. c a b > 0 \<longrightarrow> c b a \<le> 0) \<and>
     (\<forall>a b d. c a b \<le> 0 \<and> c b d \<le> 0 \<longrightarrow> c a d \<le> 0)"

text \<open>How many \<open>add\<close> and how many \<open>extract\<close> calls a sequence holds.\<close>

fun is_Add :: "'a op \<Rightarrow> bool" where
  "is_Add (Add v) = True"
| "is_Add _ = False"

definition adds :: "'a op list \<Rightarrow> nat" where
  "adds ops = length (filter is_Add ops)"

definition extracts :: "'a op list \<Rightarrow> nat" where
  "extracts ops = length (filter (\<lambda>x. x = Extract) ops)"

subsection \<open>Invariants of the two repositioning passes\<close>

text \<open>
  The node at \<open>k\<close> is not outranked by its children, which sit at \<open>2k+1\<close> and
  \<open>2k+2\<close> when those are below the length.
\<close>

definition children_ok :: "('a \<Rightarrow> 'a \<Rightarrow> int) \<Rightarrow> 'a list \<Rightarrow> nat \<Rightarrow> bool" where
  "children_ok c xs k \<longleftrightarrow>
     (2 * k + 1 < length xs \<longrightarrow> c (xs ! (2 * k + 1)) (xs ! k) \<le> 0) \<and>
     (2 * k + 2 < length xs \<longrightarrow> c (xs ! (2 * k + 2)) (xs ! k) \<le> 0)"

text \<open>The node at \<open>k\<close> does not outrank its parent.\<close>

definition parent_ok :: "('a \<Rightarrow> 'a \<Rightarrow> int) \<Rightarrow> 'a list \<Rightarrow> nat \<Rightarrow> bool" where
  "parent_ok c xs k \<longleftrightarrow> (0 < k \<and> k < length xs \<longrightarrow> c (xs ! k) (xs ! parent k) \<le> 0)"

text \<open>The children of \<open>k\<close> do not outrank the parent of \<open>k\<close>.\<close>

definition grandparent_ok :: "('a \<Rightarrow> 'a \<Rightarrow> int) \<Rightarrow> 'a list \<Rightarrow> nat \<Rightarrow> bool" where
  "grandparent_ok c xs k \<longleftrightarrow>
     (\<forall>j. 0 < k \<and> 0 < j \<and> j < length xs \<and> parent j = k
        \<longrightarrow> c (xs ! j) (xs ! parent k) \<le> 0)"

text \<open>
  The heap property everywhere but at \<open>k\<close>: every pair of child and parent that does
  not involve the slot \<open>k\<close> is in order, and so would be the children of \<open>k\<close> under
  the parent of \<open>k\<close>.
\<close>

definition heap_except :: "('a \<Rightarrow> 'a \<Rightarrow> int) \<Rightarrow> 'a list \<Rightarrow> nat \<Rightarrow> bool" where
  "heap_except c xs k \<longleftrightarrow>
     (\<forall>j. 0 < j \<and> j < length xs \<and> j \<noteq> k \<and> parent j \<noteq> k
        \<longrightarrow> c (xs ! j) (xs ! parent j) \<le> 0)
     \<and> grandparent_ok c xs k"

section \<open>Index arithmetic and the comparison function\<close>

lemma parent_less: "0 < j \<Longrightarrow> parent j < j"
  by (simp add: parent_def)

lemma parent_eq_iff: "0 < j \<Longrightarrow> parent j = k \<longleftrightarrow> j = 2 * k + 1 \<or> j = 2 * k + 2"
  unfolding parent_def by presburger

lemma consistent_total: "consistent c \<Longrightarrow> c a b > 0 \<Longrightarrow> c b a \<le> 0"
  unfolding consistent_def by blast

lemma consistent_trans: "consistent c \<Longrightarrow> c a b \<le> 0 \<Longrightarrow> c b d \<le> 0 \<Longrightarrow> c a d \<le> 0"
  unfolding consistent_def by blast

lemma consistent_refl: "consistent c \<Longrightarrow> c a a \<le> 0"
  using consistent_total [of c a a] by linarith

lemma consistent_default_cmp: "consistent default_cmp"
  by (simp add: consistent_def default_cmp_def)

lemma heap_property_iff:
  "heap_property c xs \<longleftrightarrow>
     (\<forall>i. 0 < i \<and> i < length xs \<longrightarrow> c (xs ! i) (xs ! parent i) \<le> 0)"
  by (auto simp: heap_property_def list_all_iff)

lemma children_ok_iff:
  "children_ok c xs k \<longleftrightarrow>
     (\<forall>j. 0 < j \<and> j < length xs \<and> parent j = k \<longrightarrow> c (xs ! j) (xs ! k) \<le> 0)"
proof
  assume a: "children_ok c xs k"
  show "\<forall>j. 0 < j \<and> j < length xs \<and> parent j = k \<longrightarrow> c (xs ! j) (xs ! k) \<le> 0"
  proof (intro allI impI)
    fix j assume j: "0 < j \<and> j < length xs \<and> parent j = k"
    then have "j = 2 * k + 1 \<or> j = 2 * k + 2" using parent_eq_iff by blast
    with a j show "c (xs ! j) (xs ! k) \<le> 0" by (auto simp: children_ok_def)
  qed
next
  assume a: "\<forall>j. 0 < j \<and> j < length xs \<and> parent j = k \<longrightarrow> c (xs ! j) (xs ! k) \<le> 0"
  have "parent (2 * k + 1) = k" "parent (2 * k + 2) = k" by (simp_all add: parent_def)
  with a show "children_ok c xs k" unfolding children_ok_def by (metis zero_less_Suc add_Suc_right One_nat_def Suc_1 add.right_neutral)
qed

lemma heap_property_split:
  "heap_property c xs \<longleftrightarrow>
     (\<forall>j. 0 < j \<and> j < length xs \<and> j \<noteq> k \<and> parent j \<noteq> k \<longrightarrow> c (xs ! j) (xs ! parent j) \<le> 0)
     \<and> parent_ok c xs k \<and> children_ok c xs k"
proof
  assume "heap_property c xs"
  then show "(\<forall>j. 0 < j \<and> j < length xs \<and> j \<noteq> k \<and> parent j \<noteq> k \<longrightarrow> c (xs ! j) (xs ! parent j) \<le> 0)
     \<and> parent_ok c xs k \<and> children_ok c xs k"
    by (auto simp: heap_property_iff parent_ok_def children_ok_iff)
next
  assume a: "(\<forall>j. 0 < j \<and> j < length xs \<and> j \<noteq> k \<and> parent j \<noteq> k \<longrightarrow> c (xs ! j) (xs ! parent j) \<le> 0)
     \<and> parent_ok c xs k \<and> children_ok c xs k"
  show "heap_property c xs"
    unfolding heap_property_iff
  proof (intro allI impI)
    fix i assume i: "0 < i \<and> i < length xs"
    consider "i = k" | "i \<noteq> k" "parent i = k" | "i \<noteq> k" "parent i \<noteq> k" by blast
    then show "c (xs ! i) (xs ! parent i) \<le> 0"
    proof cases
      case 1 with a i show ?thesis by (simp add: parent_ok_def)
    next
      case 2 with a i show ?thesis by (auto simp: children_ok_iff)
    next
      case 3 with a i show ?thesis by simp
    qed
  qed
qed

lemma heap_propertyI:
  "heap_except c xs k \<Longrightarrow> parent_ok c xs k \<Longrightarrow> children_ok c xs k \<Longrightarrow> heap_property c xs"
  unfolding heap_property_split [of c xs k] heap_except_def by simp

section \<open>The downward pass\<close>

lemma largest_cases:
  "largest c index xs = index \<or> largest c index xs = 2 * index + 1
     \<or> largest c index xs = 2 * index + 2"
  by (simp add: largest_def Let_def)

lemma largest_less_length:
  "largest c index xs \<noteq> index \<Longrightarrow> largest c index xs < length xs"
  by (auto simp: largest_def Let_def split: if_splits)

lemma largest_ge: "index \<le> largest c index xs"
  by (simp add: largest_def Let_def)

lemma largest_dominates:
  assumes con: "consistent c"
    and j: "j = k \<or> j = 2 * k + 1 \<or> j = 2 * k + 2" and jn: "j < length xs"
  shows "c (xs ! j) (xs ! largest c k xs) \<le> 0"
proof -
  define l where "l = 2 * k + 1"
  define r where "r = 2 * k + 2"
  define l1 where "l1 = (if l < length xs \<and> c (xs ! l) (xs ! k) > 0 then l else k)"
  have L: "largest c k xs = (if r < length xs \<and> c (xs ! r) (xs ! l1) > 0 then r else l1)"
    by (simp add: largest_def Let_def l1_def l_def r_def)
  have k1: "c (xs ! k) (xs ! l1) \<le> 0"
    by (simp add: l1_def consistent_refl [OF con] consistent_total [OF con])
  have l1': "l < length xs \<Longrightarrow> c (xs ! l) (xs ! l1) \<le> 0"
    by (simp add: l1_def consistent_refl [OF con] not_less)
  have step: "c a (xs ! largest c k xs) \<le> 0" if a: "c a (xs ! l1) \<le> 0" for a
  proof (cases "r < length xs \<and> c (xs ! r) (xs ! l1) > 0")
    case True
    then have "c (xs ! l1) (xs ! r) \<le> 0" by (simp add: consistent_total [OF con])
    with a have "c a (xs ! r) \<le> 0" by (rule consistent_trans [OF con])
    moreover have "largest c k xs = r" using True unfolding L by (rule if_P)
    ultimately show ?thesis by simp
  next
    case False
    then have "largest c k xs = l1" unfolding L by (rule if_not_P)
    with a show ?thesis by simp
  qed
  from j consider "j = k" | "j = l" | "j = r" unfolding l_def r_def by blast
  then show ?thesis
  proof cases
    case 1 with k1 step show ?thesis by simp
  next
    case 2 with l1' jn step show ?thesis by simp
  next
    case 3
    show ?thesis
    proof (cases "c (xs ! r) (xs ! l1) > 0")
      case True
      with 3 jn have "r < length xs \<and> c (xs ! r) (xs ! l1) > 0" by simp
      then have "largest c k xs = r" unfolding L by (rule if_P)
      with 3 show ?thesis by (simp add: consistent_refl [OF con])
    next
      case False
      then have "\<not> (r < length xs \<and> c (xs ! r) (xs ! l1) > 0)" by simp
      then have "largest c k xs = l1" unfolding L by (rule if_not_P)
      with False 3 show ?thesis by simp
    qed
  qed
qed


lemma heap_exceptD:
  "heap_except c xs k \<Longrightarrow> 0 < j \<Longrightarrow> j < length xs \<Longrightarrow> j \<noteq> k \<Longrightarrow> parent j \<noteq> k
     \<Longrightarrow> c (xs ! j) (xs ! parent j) \<le> 0"
  by (simp add: heap_except_def)

lemma heap_except_grandparent:
  "heap_except c xs k \<Longrightarrow> 0 < k \<Longrightarrow> 0 < j \<Longrightarrow> j < length xs \<Longrightarrow> parent j = k
     \<Longrightarrow> c (xs ! j) (xs ! parent k) \<le> 0"
  by (simp add: heap_except_def grandparent_ok_def)

lemma heapify_step:
  assumes con: "consistent c" and ex: "heap_except c xs k"
    and m: "m = largest c k xs" and ne: "m \<noteq> k"
    and xs': "xs' = xs[k := xs ! m, m := xs ! k]"
  shows "heap_except c xs' m \<and> parent_ok c xs' m"
proof -
  have mn: "m < length xs" using m ne largest_less_length by blast
  have mk: "m = 2 * k + 1 \<or> m = 2 * k + 2" using m ne largest_cases [of c k xs] by auto
  then have km: "k < m" and pm: "parent m = k" and m0: "0 < m"
    by (auto simp: parent_def)
  have kn: "k < length xs" using km mn by simp
  have at_m: "xs' ! m = xs ! k" using mn by (simp add: xs')
  have at_k: "xs' ! k = xs ! m" using kn km by (simp add: xs')
  have other: "xs' ! j = xs ! j" if "j \<noteq> k" "j \<noteq> m" for j
    using that by (simp add: xs')
  have len: "length xs' = length xs" by (simp add: xs')
  have dom: "c (xs ! j) (xs ! m) \<le> 0" if "j = k \<or> j = 2 * k + 1 \<or> j = 2 * k + 2" "j < length xs" for j
    unfolding m using con that by (rule largest_dominates)
  have pok: "parent_ok c xs' m"
    using dom [of k] kn by (simp add: parent_ok_def pm at_m at_k)
  have part1: "c (xs' ! j) (xs' ! parent j) \<le> 0"
    if j: "0 < j" "j < length xs'" "j \<noteq> m" "parent j \<noteq> m" for j
  proof -
    consider "j = k" | "j \<noteq> k" "parent j = k" | "j \<noteq> k" "parent j \<noteq> k" by blast
    then show ?thesis
    proof cases
      case 1
      then have k0: "0 < k" using j by simp
      then have "parent k < k" by (rule parent_less)
      then have "xs' ! parent k = xs ! parent k" using km by (intro other) simp_all
      moreover have "c (xs ! m) (xs ! parent k) \<le> 0"
        using ex k0 m0 mn pm by (rule heap_except_grandparent)
      ultimately show ?thesis using 1 by (simp add: at_k)
    next
      case 2
      then have "j = 2 * k + 1 \<or> j = 2 * k + 2" using j parent_eq_iff by blast
      then have "c (xs ! j) (xs ! m) \<le> 0" using j len by (intro dom) simp_all
      then show ?thesis using 2 j by (simp add: at_k other)
    next
      case 3
      then have "c (xs ! j) (xs ! parent j) \<le> 0"
        using j len by (intro heap_exceptD [OF ex]) simp_all
      then show ?thesis using 3 j by (simp add: other)
    qed
  qed
  have part2: "grandparent_ok c xs' m"
    unfolding grandparent_ok_def
  proof (intro allI impI)
    fix j assume j: "0 < m \<and> 0 < j \<and> j < length xs' \<and> parent j = m"
    then have "parent j < j" by (intro parent_less) simp
    then have jm: "m < j" using j by simp
    have "c (xs ! j) (xs ! parent j) \<le> 0"
      using j jm km len by (intro heap_exceptD [OF ex]) simp_all
    then show "c (xs' ! j) (xs' ! parent m) \<le> 0"
      using j jm km by (simp add: pm at_k other)
  qed
  show ?thesis using part1 part2 pok by (simp add: heap_except_def)
qed

lemma length_heapify [simp]: "length (heapify c k xs) = length xs"
  by (induction c k xs rule: heapify.induct) (subst heapify.simps, simp)

lemma mset_heapify [simp]: "mset (heapify c k xs) = mset xs"
proof (induction c k xs rule: heapify.induct)
  case (1 c index xs)
  show ?case
  proof (cases "largest c index xs = index")
    case True
    then show ?thesis by (subst heapify.simps) simp
  next
    case False
    then have m: "largest c index xs < length xs" by (rule largest_less_length)
    moreover have "index < length xs" using m largest_ge [of index c xs] by simp
    ultimately have "mset (xs[index := xs ! largest c index xs, largest c index xs := xs ! index]) = mset xs"
      by (rule mset_swap)
    with 1 False show ?thesis by (subst heapify.simps) simp
  qed
qed

lemma children_ok_largest:
  assumes con: "consistent c" and l: "largest c k xs = k"
  shows "children_ok c xs k"
  unfolding children_ok_iff
proof (intro allI impI)
  fix j assume j: "0 < j \<and> j < length xs \<and> parent j = k"
  then have "j = 2 * k + 1 \<or> j = 2 * k + 2" using parent_eq_iff by blast
  then have "c (xs ! j) (xs ! largest c k xs) \<le> 0"
    using con j by (intro largest_dominates) simp_all
  then show "c (xs ! j) (xs ! k) \<le> 0" by (simp add: l)
qed

lemma heapify_heap_property:
  "consistent c \<Longrightarrow> heap_except c xs k \<Longrightarrow> parent_ok c xs k
     \<Longrightarrow> heap_property c (heapify c k xs)"
proof (induction c k xs rule: heapify.induct)
  case (1 c index xs)
  show ?case
  proof (cases "largest c index xs = index")
    case True
    then have "children_ok c xs index" using "1.prems"(1) by (intro children_ok_largest)
    then have "heap_property c xs" using "1.prems" by (intro heap_propertyI)
    then show ?thesis using True by (subst heapify.simps) simp
  next
    case False
    define m where "m = largest c index xs"
    define xs' where "xs' = xs[index := xs ! m, m := xs ! index]"
    have "heap_except c xs' m \<and> parent_ok c xs' m"
      using "1.prems"(1,2) m_def False xs'_def by (intro heapify_step) auto
    then have "heap_property c (heapify c m xs')"
      using "1.IH" False "1.prems"(1) by (simp add: m_def xs'_def)
    then show ?thesis using False by (subst heapify.simps) (simp add: m_def xs'_def)
  qed
qed


section \<open>The upward pass\<close>

lemma sift_up_step:
  assumes con: "consistent c" and ex: "heap_except c xs k"
    and k0: "0 < k" and kn: "k < length xs"
    and gt: "c (xs ! k) (xs ! parent k) > 0"
    and xs': "xs' = xs[parent k := xs ! k, k := xs ! parent k]"
  shows "heap_except c xs' (parent k) \<and> children_ok c xs' (parent k)"
proof -
  define p where "p = parent k"
  have pk: "p < k" unfolding p_def using k0 by (rule parent_less)
  have at_k: "xs' ! k = xs ! p" using kn by (simp add: xs' p_def)
  have at_p: "xs' ! p = xs ! k" using kn pk by (simp add: xs' p_def [symmetric])
  have other: "xs' ! j = xs ! j" if "j \<noteq> k" "j \<noteq> p" for j
    using that by (simp add: xs' p_def [symmetric])
  have len: "length xs' = length xs" by (simp add: xs')
  have le_pk: "c (xs ! p) (xs ! k) \<le> 0"
    using gt by (simp add: consistent_total [OF con] p_def)
  have rel: "c (xs ! j) (xs ! parent j) \<le> 0"
    if "0 < j" "j < length xs" "j \<noteq> k" "parent j \<noteq> k" for j
    using ex that by (rule heap_exceptD)
  have part1: "c (xs' ! j) (xs' ! parent j) \<le> 0"
    if j: "0 < j" "j < length xs'" "j \<noteq> p" "parent j \<noteq> p" for j
  proof -
    have jk: "j \<noteq> k" using j p_def by blast
    show ?thesis
    proof (cases "parent j = k")
      case True
      then have "c (xs ! j) (xs ! parent k) \<le> 0"
        using j len k0 by (intro heap_except_grandparent [OF ex]) simp_all
      then show ?thesis using True jk j by (simp add: at_k other p_def)
    next
      case False
      then have "c (xs ! j) (xs ! parent j) \<le> 0" using j jk len by (intro rel) simp_all
      then show ?thesis using False jk j by (simp add: other)
    qed
  qed
  have sib: "c (xs ! j) (xs ! p) \<le> 0"
    if j: "0 < j" "j < length xs" "parent j = p" "j \<noteq> k" for j
  proof -
    have "c (xs ! j) (xs ! parent j) \<le> 0" using j pk by (intro rel) simp_all
    then show ?thesis using j by simp
  qed
  have part2: "grandparent_ok c xs' p"
    unfolding grandparent_ok_def
  proof (intro allI impI)
    fix j assume j: "0 < p \<and> 0 < j \<and> j < length xs' \<and> parent j = p"
    then have ppp: "parent p < p" by (intro parent_less) simp
    have g: "c (xs ! p) (xs ! parent p) \<le> 0"
      using j pk kn ppp by (intro rel) simp_all
    have pj: "p < j" using j parent_less [of j] by simp
    have gp: "xs' ! parent p = xs ! parent p" using ppp pk by (intro other) simp_all
    show "c (xs' ! j) (xs' ! parent p) \<le> 0"
    proof (cases "j = k")
      case True
      then show ?thesis using g by (simp add: at_k gp)
    next
      case False
      then have "c (xs ! j) (xs ! p) \<le> 0" using j len by (intro sib) simp_all
      then have "c (xs ! j) (xs ! parent p) \<le> 0" using g by (rule consistent_trans [OF con])
      then show ?thesis using False pj by (simp add: other gp)
    qed
  qed
  have part3: "children_ok c xs' p"
    unfolding children_ok_iff
  proof (intro allI impI)
    fix j assume j: "0 < j \<and> j < length xs' \<and> parent j = p"
    have pj: "p < j" using j parent_less [of j] by simp
    show "c (xs' ! j) (xs' ! p) \<le> 0"
    proof (cases "j = k")
      case True
      then show ?thesis using le_pk by (simp add: at_k at_p)
    next
      case False
      then have "c (xs ! j) (xs ! p) \<le> 0" using j len by (intro sib) simp_all
      then have "c (xs ! j) (xs ! k) \<le> 0" using le_pk by (rule consistent_trans [OF con])
      then show ?thesis using False pj by (simp add: other at_p)
    qed
  qed
  show ?thesis using part1 part2 part3 by (simp add: heap_except_def p_def)
qed

lemma changeKey_loop_invariant:
  "consistent c \<Longrightarrow> heap_except c xs k \<Longrightarrow> k < length xs \<Longrightarrow> xs ! k = elem
     \<Longrightarrow> changeKey_loop c elem k xs = (k', ys)
     \<Longrightarrow> heap_except c ys k' \<and> parent_ok c ys k'
         \<and> (k' < k \<or> children_ok c xs k \<longrightarrow> children_ok c ys k')"
proof (induction c elem k xs rule: changeKey_loop.induct)
  case (1 c elem index xs)
  show ?case
  proof (cases "index > 0 \<and> c elem (xs ! parent index) > 0")
    case False
    then have eq: "k' = index" "ys = xs"
      using "1.prems"(5) by (subst (asm) changeKey_loop.simps, simp)+
    have "parent_ok c xs index"
      using False "1.prems"(4) by (auto simp: parent_ok_def)
    then show ?thesis using "1.prems"(2) by (simp add: eq)
  next
    case True
    define xs' where "xs' = xs[parent index := elem, index := xs ! parent index]"
    have step: "heap_except c xs' (parent index) \<and> children_ok c xs' (parent index)"
      using "1.prems"(1,2,3,4) True xs'_def by (intro sift_up_step) auto
    have pl: "parent index < index" using True by (simp add: parent_less)
    have len: "length xs' = length xs" by (simp add: xs'_def)
    have at: "xs' ! parent index = elem"
      using pl "1.prems"(3) by (simp add: xs'_def)
    have run: "changeKey_loop c elem (parent index) xs' = (k', ys)"
      using "1.prems"(5) True by (subst (asm) changeKey_loop.simps) (simp add: xs'_def)
    have "heap_except c ys k' \<and> parent_ok c ys k'
         \<and> (k' < parent index \<or> children_ok c xs' (parent index) \<longrightarrow> children_ok c ys k')"
      using True "1.prems"(1,3) step pl at run len
      by (intro "1.IH" [folded xs'_def]) simp_all
    then show ?thesis using step by simp
  qed
qed

lemma changeKey_loop_facts:
  "k < length xs \<Longrightarrow> xs ! k = elem \<Longrightarrow> changeKey_loop c elem k xs = (k', ys)
     \<Longrightarrow> length ys = length xs \<and> k' \<le> k \<and> ys ! k' = elem \<and> mset ys = mset xs"
proof (induction c elem k xs rule: changeKey_loop.induct)
  case (1 c elem index xs)
  show ?case
  proof (cases "index > 0 \<and> c elem (xs ! parent index) > 0")
    case False
    then have eq: "k' = index" "ys = xs"
      using "1.prems"(3) by (subst (asm) changeKey_loop.simps, simp)+
    then show ?thesis using "1.prems" by simp
  next
    case True
    define xs' where "xs' = xs[parent index := elem, index := xs ! parent index]"
    have pl: "parent index < index" using True by (simp add: parent_less)
    have len: "length xs' = length xs" by (simp add: xs'_def)
    have at: "xs' ! parent index = elem"
      using pl "1.prems"(1) by (simp add: xs'_def)
    have run: "changeKey_loop c elem (parent index) xs' = (k', ys)"
      using "1.prems"(3) True by (subst (asm) changeKey_loop.simps) (simp add: xs'_def)
    have ms: "mset xs' = mset xs"
      unfolding xs'_def "1.prems"(2) [symmetric]
      using "1.prems"(1) pl by (intro mset_swap) simp_all
    have "length ys = length xs' \<and> k' \<le> parent index \<and> ys ! k' = elem \<and> mset ys = mset xs'"
      using True "1.prems"(1) pl at run len
      by (intro "1.IH" [folded xs'_def]) simp_all
    then show ?thesis using pl ms by (simp add: xs'_def)
  qed
qed

section \<open>The methods on a heap\<close>

lemma largest_children_ok: "children_ok c xs k \<Longrightarrow> largest c k xs = k"
  by (auto simp: children_ok_def largest_def Let_def)

lemma heapify_id: "largest c k xs = k \<Longrightarrow> heapify c k xs = xs"
  by (subst heapify.simps) simp

lemma write_except:
  assumes con: "consistent c" and hp: "heap_property c xs" and i: "i < length xs"
  shows "heap_except c (xs[i := v]) i"
proof -
  have rel: "c (xs ! j) (xs ! parent j) \<le> 0" if "0 < j" "j < length xs" for j
    using hp that by (simp add: heap_property_iff)
  have "c ((xs[i := v]) ! j) ((xs[i := v]) ! parent i) \<le> 0"
    if j: "0 < i" "0 < j" "j < length xs" "parent j = i" for j
  proof -
    have "i < j" using j parent_less [of j] by simp
    moreover have "parent i < i" using j by (simp add: parent_less)
    moreover have "c (xs ! j) (xs ! i) \<le> 0" using rel [of j] j by simp
    then have "c (xs ! j) (xs ! parent i) \<le> 0"
      using rel [of i] j i by (simp add: consistent_trans [OF con, of _ "xs ! i"])
    ultimately show ?thesis by simp
  qed
  then have "grandparent_ok c (xs[i := v]) i"
    by (simp add: grandparent_ok_def)
  moreover have "c ((xs[i := v]) ! j) ((xs[i := v]) ! parent j) \<le> 0"
    if "0 < j" "j < length xs" "j \<noteq> i" "parent j \<noteq> i" for j
    using that rel [of j] by simp
  ultimately show ?thesis by (simp add: heap_except_def)
qed

lemma append_except:
  assumes hp: "heap_property c xs"
  shows "heap_except c (xs @ [v]) (length xs)" and "children_ok c (xs @ [v]) (length xs)"
proof -
  have "c ((xs @ [v]) ! j) ((xs @ [v]) ! parent j) \<le> 0"
    if j: "0 < j" "j < length (xs @ [v])" "j \<noteq> length xs" for j
  proof -
    have jn: "j < length xs" using j by simp
    moreover have "parent j < length xs" using parent_less [OF j(1)] jn by simp
    ultimately show ?thesis using hp j by (simp add: nth_append heap_property_iff)
  qed
  moreover have "grandparent_ok c (xs @ [v]) (length xs)"
    unfolding grandparent_ok_def
  proof (intro allI impI)
    fix j assume j: "0 < length xs \<and> 0 < j \<and> j < length (xs @ [v]) \<and> parent j = length xs"
    then have "parent j < j" by (intro parent_less) simp
    with j have False by simp
    then show "c ((xs @ [v]) ! j) ((xs @ [v]) ! parent (length xs)) \<le> 0" ..
  qed
  ultimately show "heap_except c (xs @ [v]) (length xs)"
    by (simp add: heap_except_def)
  show "children_ok c (xs @ [v]) (length xs)"
    by (simp add: children_ok_def)
qed

lemma reposition_heap:
  assumes con: "consistent c" and ex: "heap_except c xs i" and i: "i < length xs"
    and loop: "changeKey_loop c (xs ! i) i xs = (k, ys)"
  shows "heap_property c (heapify c k ys)"
proof -
  have "heap_except c ys k \<and> parent_ok c ys k
         \<and> (k < i \<or> children_ok c xs i \<longrightarrow> children_ok c ys k)"
    using con ex i _ loop by (rule changeKey_loop_invariant) simp
  then show ?thesis using con by (intro heapify_heap_property) simp_all
qed

lemma reposition_stays:
  assumes con: "consistent c" and ex: "heap_except c xs i" and i: "i < length xs"
    and loop: "changeKey_loop c (xs ! i) i xs = (k, ys)"
    and ch: "k < i \<or> children_ok c xs i"
  shows "heapify c k ys = ys" and "children_ok c ys k"
proof -
  have "heap_except c ys k \<and> parent_ok c ys k
         \<and> (k < i \<or> children_ok c xs i \<longrightarrow> children_ok c ys k)"
    using con ex i _ loop by (rule changeKey_loop_invariant) simp
  with ch show "children_ok c ys k" by simp
  then show "heapify c k ys = ys" by (intro heapify_id largest_children_ok)
qed

lemma changeKey_in_range:
  assumes i: "index < length (heap h)"
    and loop: "changeKey_loop (cmp h) v index ((heap h)[index := v]) = (k, ys)"
  shows "changeKey index v h = Some (k, h\<lparr>heap := heapify (cmp h) k ys\<rparr>)"
  using i loop by (simp add: changeKey_def)

lemma root_extremum:
  assumes con: "consistent c" and hp: "heap_property c xs"
  shows "i < length xs \<Longrightarrow> c (xs ! i) (xs ! 0) \<le> 0"
proof (induction i rule: less_induct)
  case (less i)
  show ?case
  proof (cases "i = 0")
    case True
    then show ?thesis by (simp add: consistent_refl [OF con])
  next
    case False
    then have p: "parent i < i" by (simp add: parent_less)
    then have "c (xs ! parent i) (xs ! 0) \<le> 0" using less by simp
    moreover have "c (xs ! i) (xs ! parent i) \<le> 0"
      using hp False less.prems by (simp add: heap_property_iff)
    ultimately show ?thesis by (simp add: consistent_trans [OF con, of _ "xs ! parent i"])
  qed
qed

lemma extract_except:
  assumes hp: "heap_property c xs" and n: "1 < length xs"
  shows "heap_except c ((butlast xs)[0 := last xs]) 0"
proof -
  have "c (((butlast xs)[0 := last xs]) ! j) (((butlast xs)[0 := last xs]) ! parent j) \<le> 0"
    if j: "0 < j" "j < length (butlast xs)" "parent j \<noteq> 0" for j
  proof -
    have "parent j < j" using j by (simp add: parent_less)
    then show ?thesis using j hp by (simp add: nth_butlast heap_property_iff)
  qed
  then show ?thesis by (simp add: heap_except_def grandparent_ok_def)
qed

lemma indexOf_absent: "x \<notin> set xs \<Longrightarrow> indexOf xs x = - 1"
  by (induction xs) (auto simp: Let_def)

lemma indexOf_present:
  "x \<in> set xs \<Longrightarrow> 0 \<le> indexOf xs x \<and> nat (indexOf xs x) < length xs
     \<and> xs ! nat (indexOf xs x) = x \<and> (\<forall>j < nat (indexOf xs x). xs ! j \<noteq> x)"
proof (induction xs)
  case Nil
  then show ?case by simp
next
  case (Cons y ys)
  show ?case
  proof (cases "y = x")
    case True
    then show ?thesis by simp
  next
    case False
    with Cons have IH: "0 \<le> indexOf ys x \<and> nat (indexOf ys x) < length ys
     \<and> ys ! nat (indexOf ys x) = x \<and> (\<forall>j < nat (indexOf ys x). ys ! j \<noteq> x)" by simp
    then have eq: "indexOf (y # ys) x = indexOf ys x + 1" using False by (simp add: Let_def)
    have n: "nat (indexOf ys x + 1) = Suc (nat (indexOf ys x))" using IH by arith
    have "\<forall>j < Suc (nat (indexOf ys x)). (y # ys) ! j \<noteq> x"
    proof (intro allI impI)
      fix j assume "j < Suc (nat (indexOf ys x))"
      then show "(y # ys) ! j \<noteq> x" using IH False by (cases j) simp_all
    qed
    then show ?thesis unfolding eq n using IH by simp
  qed
qed

lemma changeKey_facts:
  assumes i: "index < length (heap h)" and ck: "changeKey index v h = Some (k, h')"
  shows "mset (heap h') = mset ((heap h)[index := v])"
    and "length (heap h') = length (heap h)" and "cmp h' = cmp h" and "k \<le> index"
proof -
  obtain k0 ys where loop: "changeKey_loop (cmp h) v index ((heap h)[index := v]) = (k0, ys)"
    by (cases "changeKey_loop (cmp h) v index ((heap h)[index := v])")
  have "Some (k0, h\<lparr>heap := heapify (cmp h) k0 ys\<rparr>) = Some (k, h')"
    by (rule ck [unfolded changeKey_in_range [OF i loop]])
  then have eq: "k = k0" "h' = h\<lparr>heap := heapify (cmp h) k0 ys\<rparr>"
    by blast+
  have f: "length ys = length ((heap h)[index := v]) \<and> k0 \<le> index \<and> ys ! k0 = v
      \<and> mset ys = mset ((heap h)[index := v])"
    using _ _ loop by (rule changeKey_loop_facts) (simp_all add: i)
  show "mset (heap h') = mset ((heap h)[index := v])" using f by (simp add: eq)
  show "length (heap h') = length (heap h)" using f by (simp add: eq)
  show "cmp h' = cmp h" by (simp add: eq)
  show "k \<le> index" using f by (simp add: eq)
qed

lemma changeKey_completes:
  "index < length (heap h) \<Longrightarrow> \<exists>k h'. changeKey index v h = Some (k, h')"
  by (cases "changeKey_loop (cmp h) v index ((heap h)[index := v])")
     (auto dest: changeKey_in_range)

lemma add_completes: "\<exists>k h'. add v h = Some (k, h')"
  unfolding add_def Let_def by (rule changeKey_completes) simp

lemma add_facts:
  assumes "add v h = Some (k, h')"
  shows "mset (heap h') = add_mset v (mset (heap h))"
    and "length (heap h') = Suc (length (heap h))" and "cmp h' = cmp h"
proof -
  define h1 where "h1 = h\<lparr>heap := heap h @ [v]\<rparr>"
  have ck: "changeKey (length (heap h)) v h1 = Some (k, h')"
    using assms by (simp add: add_def h1_def)
  have i: "length (heap h) < length (heap h1)" by (simp add: h1_def)
  show "mset (heap h') = add_mset v (mset (heap h))"
    using changeKey_facts(1) [OF i ck] by (simp add: h1_def)
  show "length (heap h') = Suc (length (heap h))"
    using changeKey_facts(2) [OF i ck] by (simp add: h1_def)
  show "cmp h' = cmp h"
    using changeKey_facts(3) [OF i ck] by (simp add: h1_def)
qed

lemma update_absent: "node \<notin> set (heap h) \<Longrightarrow> update node h = Some h"
  by (simp add: update_def indexOf_absent)

lemma update_present:
  "node \<in> set (heap h)
     \<Longrightarrow> update node h = map_option snd (changeKey (nat (indexOf (heap h) node)) node h)"
  using indexOf_present [of node "heap h"] by (simp add: update_def)

lemma extract_nonempty:
  assumes "heap h \<noteq> []"
  shows "fst (extract_heap h) = Inr (heap h ! 0)"
    and "heap (snd (extract_heap h)) =
           (if length (heap h) = 1 then []
            else heapify (cmp h) 0 ((butlast (heap h))[0 := last (heap h)]))"
    and "cmp (snd (extract_heap h)) = cmp h"
    and "length (heap (snd (extract_heap h))) = length (heap h) - 1"
proof -
  obtain a ys where xs: "heap h = a # ys" using assms by (cases "heap h") auto
  show "fst (extract_heap h) = Inr (heap h ! 0)"
    by (simp add: extract_heap_def xs Let_def)
  show "heap (snd (extract_heap h)) =
           (if length (heap h) = 1 then []
            else heapify (cmp h) 0 ((butlast (heap h))[0 := last (heap h)]))"
    by (simp add: extract_heap_def xs Let_def)
  show "cmp (snd (extract_heap h)) = cmp h"
    by (simp add: extract_heap_def xs Let_def)
  show "length (heap (snd (extract_heap h))) = length (heap h) - 1"
    by (simp add: extract_heap_def xs Let_def)
qed

lemma mset_promote_last:
  "1 < length xs \<Longrightarrow> mset ((butlast xs)[0 := last xs]) = mset xs - {#xs ! 0#}"
proof -
  assume n: "1 < length xs"
  then obtain a ys where xs: "xs = a # ys" and ys: "ys \<noteq> []" by (cases xs) auto
  have "mset (last ys # butlast ys) = mset (butlast ys @ [last ys])" by simp
  also have "\<dots> = mset ys" using ys by simp
  finally show ?thesis using ys by (simp add: xs)
qed

lemma heap_property_Nil: "heap_property c []"
  by (simp add: heap_property_def)

lemma parent_ok_0: "parent_ok c xs 0"
  by (simp add: parent_ok_def)

lemma extract_heap_property:
  assumes con: "consistent (cmp h)" and hp: "heap_property (cmp h) (heap h)"
  shows "heap_property (cmp h) (heap (snd (extract_heap h)))"
proof (cases "heap h = []")
  case True
  then show ?thesis using hp by (simp add: extract_heap_def)
next
  case False
  show ?thesis
  proof (cases "length (heap h) = 1")
    case True
    then show ?thesis using False by (simp add: extract_nonempty(2) heap_property_Nil)
  next
    case one: False
    then have "1 < length (heap h)" using False by (cases "heap h") auto
    then have "heap_except (cmp h) ((butlast (heap h))[0 := last (heap h)]) 0"
      using hp by (intro extract_except)
    then have "heap_property (cmp h) (heapify (cmp h) 0 ((butlast (heap h))[0 := last (heap h)]))"
      using con parent_ok_0 by (intro heapify_heap_property)
    then show ?thesis using False one by (simp add: extract_nonempty(2))
  qed
qed

lemma changeKey_heap_property:
  assumes con: "consistent (cmp h)" and hp: "heap_property (cmp h) (heap h)"
    and i: "index < length (heap h)" and ck: "changeKey index v h = Some (k, h')"
  shows "heap_property (cmp h') (heap h')"
proof -
  define xs where "xs = (heap h)[index := v]"
  obtain k0 ys where loop: "changeKey_loop (cmp h) v index xs = (k0, ys)"
    by (cases "changeKey_loop (cmp h) v index xs")
  have "Some (k0, h\<lparr>heap := heapify (cmp h) k0 ys\<rparr>) = Some (k, h')"
    by (rule ck [unfolded changeKey_in_range [OF i loop [unfolded xs_def]]])
  then have eq: "h' = h\<lparr>heap := heapify (cmp h) k0 ys\<rparr>" by blast
  have ex: "heap_except (cmp h) xs index"
    unfolding xs_def using con hp i by (rule write_except)
  have at: "xs ! index = v" using i by (simp add: xs_def)
  have "heap_property (cmp h) (heapify (cmp h) k0 ys)"
    using con ex _ loop [folded at] by (rule reposition_heap) (simp add: xs_def i)
  then show ?thesis by (simp add: eq)
qed

lemma add_upward_only:
  assumes con: "consistent (cmp h)" and hp: "heap_property (cmp h) (heap h)"
    and loop: "changeKey_loop (cmp h) v (length (heap h)) (heap h @ [v]) = (j, ys)"
  shows "add v h = Some (j, h\<lparr>heap := ys\<rparr>)" and "heapify (cmp h) j ys = ys"
    and "heap_property (cmp h) ys"
proof -
  define n where "n = length (heap h)"
  define xs where "xs = heap h @ [v]"
  have at: "xs ! n = v" and nl: "n < length xs" by (simp_all add: xs_def n_def)
  have ex: "heap_except (cmp h) xs n" and ch: "children_ok (cmp h) xs n"
    unfolding xs_def n_def using hp by (rule append_except)+
  have loop': "changeKey_loop (cmp h) (xs ! n) n xs = (j, ys)"
    using loop by (simp add: at xs_def [symmetric] n_def [symmetric])
  show stay: "heapify (cmp h) j ys = ys"
    using con ex nl loop' by (rule reposition_stays) (simp add: ch)
  have "heap_property (cmp h) (heapify (cmp h) j ys)"
    using con ex nl loop' by (rule reposition_heap)
  then show "heap_property (cmp h) ys" by (simp add: stay)
  have "changeKey n v (h\<lparr>heap := xs\<rparr>)
          = Some (j, h\<lparr>heap := xs\<rparr>\<lparr>heap := heapify (cmp (h\<lparr>heap := xs\<rparr>)) j ys\<rparr>)"
    using loop by (intro changeKey_in_range) (simp_all add: xs_def n_def)
  then show "add v h = Some (j, h\<lparr>heap := ys\<rparr>)"
    by (simp add: add_def xs_def n_def stay)
qed

lemma add_heap_property:
  assumes con: "consistent (cmp h)" and hp: "heap_property (cmp h) (heap h)"
    and ad: "add v h = Some (j, h')"
  shows "heap_property (cmp h') (heap h')"
proof -
  obtain j0 ys where loop: "changeKey_loop (cmp h) v (length (heap h)) (heap h @ [v]) = (j0, ys)"
    by (cases "changeKey_loop (cmp h) v (length (heap h)) (heap h @ [v])")
  have "Some (j0, h\<lparr>heap := ys\<rparr>) = Some (j, h')"
    by (rule ad [unfolded add_upward_only(1) [OF con hp loop]])
  then have "h' = h\<lparr>heap := ys\<rparr>" by blast
  then show ?thesis using add_upward_only(3) [OF con hp loop] by simp
qed

lemma update_heap_property:
  assumes con: "consistent (cmp h)" and hp: "heap_property (cmp h) (heap h)"
    and up: "update node h = Some h'"
  shows "heap_property (cmp h') (heap h') \<and> cmp h' = cmp h"
proof (cases "node \<in> set (heap h)")
  case False
  then have "h' = h" using up by (simp add: update_absent)
  then show ?thesis using hp by simp
next
  case True
  define i where "i = nat (indexOf (heap h) node)"
  have i: "i < length (heap h)" using indexOf_present [OF True] by (simp add: i_def)
  obtain k h1 where ck: "changeKey i node h = Some (k, h1)"
    using changeKey_completes [OF i, of node] by blast
  have "update node h = Some h1"
    using update_present [OF True] ck by (simp add: i_def)
  then have "h' = h1" using up by simp
  then show ?thesis
    using changeKey_heap_property [OF con hp i ck] changeKey_facts(3) [OF i ck] by simp
qed

lemma run_heap_property:
  "consistent (cmp h0) \<Longrightarrow> heap_property (cmp h0) (heap h0) \<Longrightarrow> run h0 ops = Some h
     \<Longrightarrow> heap_property (cmp h) (heap h) \<and> cmp h = cmp h0"
proof (induction ops arbitrary: h0)
  case Nil
  then show ?case by simp
next
  case (Cons x ops)
  show ?case
  proof (cases x)
    case (Add v)
    obtain j h1 where ad: "add v h0 = Some (j, h1)" using add_completes [of v h0] by blast
    have r: "run h1 ops = Some h" using Cons.prems(3) by (simp add: Add ad)
    have c1: "cmp h1 = cmp h0" using ad by (rule add_facts(3))
    have hp1: "heap_property (cmp h1) (heap h1)"
      using Cons.prems(1,2) ad by (rule add_heap_property)
    have con1: "consistent (cmp h1)" using Cons.prems(1) by (simp add: c1)
    from Cons.IH [OF con1 hp1 r] have "heap_property (cmp h) (heap h)" and "cmp h = cmp h1"
      by blast+
    then show ?thesis using c1 by simp
  next
    case Extract
    obtain r h1 where ex: "extract_heap h0 = (r, h1)" by (cases "extract_heap h0")
    have ne: "heap h0 \<noteq> []"
      using Cons.prems(3) by (auto simp: Extract extract_heap_def split: if_splits)
    have r: "run h1 ops = Some h"
      using Cons.prems(3) extract_nonempty(1) [OF ne] by (simp add: Extract ex)
    have c1: "cmp h1 = cmp h0" using extract_nonempty(3) [OF ne] by (simp add: ex)
    have hp1: "heap_property (cmp h1) (heap h1)"
      using extract_heap_property [OF Cons.prems(1,2)] by (simp add: ex c1)
    have con1: "consistent (cmp h1)" using Cons.prems(1) by (simp add: c1)
    from Cons.IH [OF con1 hp1 r] have "heap_property (cmp h) (heap h)" and "cmp h = cmp h1"
      by blast+
    then show ?thesis using c1 by simp
  next
    case (ChangeKey i v)
    have i: "i < length (heap h0)"
      using Cons.prems(3) by (simp add: ChangeKey split: if_splits)
    obtain k h1 where ck: "changeKey i v h0 = Some (k, h1)"
      using changeKey_completes [OF i, of v] by blast
    have r: "run h1 ops = Some h" using Cons.prems(3) i by (simp add: ChangeKey ck)
    have c1: "cmp h1 = cmp h0" using i ck by (rule changeKey_facts(3))
    have hp1: "heap_property (cmp h1) (heap h1)"
      using Cons.prems(1,2) i ck by (rule changeKey_heap_property)
    have con1: "consistent (cmp h1)" using Cons.prems(1) by (simp add: c1)
    from Cons.IH [OF con1 hp1 r] have "heap_property (cmp h) (heap h)" and "cmp h = cmp h1"
      by blast+
    then show ?thesis using c1 by simp
  next
    case (Update v)
    obtain h1 where up: "update v h0 = Some h1"
      using Cons.prems(3) by (auto simp: Update split: option.splits)
    have r: "run h1 ops = Some h" using Cons.prems(3) by (simp add: Update up)
    have "heap_property (cmp h1) (heap h1) \<and> cmp h1 = cmp h0"
      using Cons.prems(1,2) up by (rule update_heap_property)
    then have hp1: "heap_property (cmp h1) (heap h1)" and c1: "cmp h1 = cmp h0"
      by blast+
    have con1: "consistent (cmp h1)" using Cons.prems(1) by (simp add: c1)
    from Cons.IH [OF con1 hp1 r] have "heap_property (cmp h) (heap h)" and "cmp h = cmp h1"
      by blast+
    then show ?thesis using c1 by simp
  qed
qed

lemma run_size:
  "list_all (\<lambda>x. is_Add x \<or> x = Extract) ops
     \<Longrightarrow> \<forall>n \<le> length ops. extracts (take n ops) \<le> length (heap h0) + adds (take n ops)
     \<Longrightarrow> \<exists>h. run h0 ops = Some h
           \<and> length (heap h) + extracts ops = length (heap h0) + adds ops"
proof (induction ops arbitrary: h0)
  case Nil
  then show ?case by (simp add: adds_def extracts_def)
next
  case (Cons x ops)
  have rest: "list_all (\<lambda>x. is_Add x \<or> x = Extract) ops" using Cons.prems(1) by simp
  have pre: "extracts (take (Suc n) (x # ops)) \<le> length (heap h0) + adds (take (Suc n) (x # ops))"
    if "n \<le> length ops" for n
    using Cons.prems(2) that by (simp del: take_Suc_Cons)
  show ?case
  proof (cases x)
    case (Add v)
    obtain j h1 where ad: "add v h0 = Some (j, h1)" using add_completes [of v h0] by blast
    have len: "length (heap h1) = Suc (length (heap h0))" using ad by (rule add_facts(2))
    have "\<forall>n \<le> length ops. extracts (take n ops) \<le> length (heap h1) + adds (take n ops)"
      using pre by (simp add: Add len adds_def extracts_def)
    from Cons.IH [OF rest this] obtain h where
      "run h1 ops = Some h" "length (heap h) + extracts ops = length (heap h1) + adds ops"
      by blast
    then show ?thesis by (simp add: Add ad len adds_def extracts_def)
  next
    case Extract
    have "extracts (take (Suc 0) (x # ops)) \<le> length (heap h0) + adds (take (Suc 0) (x # ops))"
      using pre [of 0] by simp
    then have ne: "heap h0 \<noteq> []" by (auto simp: Extract adds_def extracts_def)
    obtain r h1 where ex: "extract_heap h0 = (r, h1)" by (cases "extract_heap h0")
    have r: "r = Inr (heap h0 ! 0)" using extract_nonempty(1) [OF ne] by (simp add: ex)
    have len: "Suc (length (heap h1)) = length (heap h0)"
      using extract_nonempty(4) [OF ne] ne by (simp add: ex)
    have "\<forall>n \<le> length ops. extracts (take n ops) \<le> length (heap h1) + adds (take n ops)"
      using pre len [symmetric] by (simp add: Extract adds_def extracts_def)
    from Cons.IH [OF rest this] obtain h where
      "run h1 ops = Some h" "length (heap h) + extracts ops = length (heap h1) + adds ops"
      by blast
    then show ?thesis using len [symmetric] by (simp add: Extract ex r adds_def extracts_def)
  next
    case (ChangeKey i v)
    then show ?thesis using Cons.prems(1) by simp
  next
    case (Update v)
    then show ?thesis using Cons.prems(1) by simp
  qed
qed

section \<open>The claims\<close>

text \<open>
  Claim C1.  In every state reached from the empty heap by a sequence of \<open>add\<close>,
  \<open>extract\<close>, \<open>changeKey\<close> at an index below the length, and \<open>update\<close> calls, no
  child outranks its parent: \<open>cmp(elements[i], elements[parent(i)]) <= 0\<close> for every
  index \<open>i\<close> with \<open>0 < i < length\<close>.  The comparison function is the one the heap
  was constructed with, and it is consistent, as the heap requires of it.
\<close>

theorem heap_property_reachable:
  assumes con: "consistent c" and r: "run (new_Heap c) ops = Some h"
  shows "\<forall>i. 0 < i \<and> i < length (heap h)
           \<longrightarrow> cmp h (heap h ! i) (heap h ! parent i) \<le> 0"
proof -
  have "heap_property (cmp (new_Heap c)) (heap (new_Heap c))"
    by (simp add: new_Heap_def heap_property_Nil)
  moreover have "consistent (cmp (new_Heap c))" using con by (simp add: new_Heap_def)
  ultimately have "heap_property (cmp h) (heap h) \<and> cmp h = cmp (new_Heap c)"
    using r by (intro run_heap_property)
  then have "heap_property (cmp h) (heap h)" by blast
  then show ?thesis unfolding heap_property_iff .
qed

text \<open>A run of eight calls on numbers, with every kind of call in it.\<close>

theorem heap_property_reachable_witness:
  "consistent default_cmp
   \<and> (\<exists>h. run (new_Heap default_cmp)
              [Add 5, Add 3, Add 8, Extract, ChangeKey 1 9, Update 5, Add 1, Add 7] = Some h
          \<and> heap h = [9, 7, 1, 5]
          \<and> cmp h (heap h ! 3) (heap h ! parent 3) \<le> 0)"
proof -
  let ?ops = "[Add 5, Add 3, Add 8, Extract, ChangeKey 1 9, Update 5, Add 1, Add 7]"
  have "map_option heap (run (new_Heap default_cmp) ?ops) = Some [9, 7, 1, 5]"
    by code_simp
  then obtain h where h: "run (new_Heap default_cmp) ?ops = Some h" "heap h = [9, 7, 1, 5]"
    by blast
  have "cmp h (heap h ! 3) (heap h ! parent 3) \<le> 0"
    using heap_property_reachable [OF consistent_default_cmp h(1), rule_format, of 3] h(2)
    by simp
  then show ?thesis using h consistent_default_cmp by blast
qed

text \<open>
  Claim C2.  With the default comparison \<open>a - b\<close>, adding 5, 3, 8, 1, 4 and
  extracting five times yields 8, 5, 4, 3, 1: the largest number first.  The heap
  built without a comparison function is a max-heap, not the min-heap that the
  comments of the constructor announce.
\<close>

theorem default_comparator_extraction_order:
  "map_option (fst \<circ> extract_n 5) (run new_Heap_default (map Add [5, 3, 8, 1, 4]))
     = Some [Inr 8, Inr 5, Inr 4, Inr 3, Inr 1]"
  by code_simp

text \<open>
  Claim C3.  On a non-empty heap that satisfies the heap property, with a consistent
  comparison function, \<open>extract()\<close> returns the element at position 0, which no stored
  element outranks; the length decreases by exactly one; and the array left is empty
  when one element was stored, and otherwise the result of putting the former last
  element at position 0 and sifting it down, which satisfies the heap property again.
\<close>

theorem extract_root_and_restore:
  assumes con: "consistent (cmp h)" and hp: "heap_property (cmp h) (heap h)"
    and ne: "heap h \<noteq> []"
  shows "fst (extract_heap h) = Inr (heap h ! 0)
     \<and> (\<forall>x \<in> set (heap h). cmp h x (heap h ! 0) \<le> 0)
     \<and> Suc (length (heap (snd (extract_heap h)))) = length (heap h)
     \<and> heap (snd (extract_heap h)) =
           (if length (heap h) = 1 then []
            else heapify (cmp h) 0 ((butlast (heap h))[0 := last (heap h)]))
     \<and> cmp (snd (extract_heap h)) = cmp h
     \<and> heap_property (cmp h) (heap (snd (extract_heap h)))"
proof -
  have "\<forall>x \<in> set (heap h). cmp h x (heap h ! 0) \<le> 0"
    using root_extremum [OF con hp] by (auto simp: in_set_conv_nth)
  moreover have "Suc (length (heap (snd (extract_heap h)))) = length (heap h)"
    using extract_nonempty(4) [OF ne] ne by simp
  ultimately show ?thesis
    using extract_nonempty(1,2,3) [OF ne] extract_heap_property [OF con hp] by simp
qed

text \<open>Extracting from the heap of five numbers.\<close>

theorem extract_root_and_restore_witness:
  "consistent default_cmp \<and> heap_property default_cmp [8, 5, 4, 3, 1]
   \<and> fst (extract_heap \<lparr>heap = [8, 5, 4, 3, 1], cmp = default_cmp\<rparr>) = Inr 8
   \<and> heap (snd (extract_heap \<lparr>heap = [8, 5, 4, 3, 1], cmp = default_cmp\<rparr>)) = [5, 3, 4, 1]
   \<and> heap_property default_cmp
        (heap (snd (extract_heap \<lparr>heap = [8, 5, 4, 3, 1], cmp = default_cmp\<rparr>)))"
proof -
  let ?h = "\<lparr>heap = [8, 5, 4, 3, 1], cmp = default_cmp\<rparr>"
  have con: "consistent (cmp ?h)" by (simp add: consistent_default_cmp)
  have hp: "heap_property default_cmp [8, 5, 4, 3, 1]" by code_simp
  then have hp': "heap_property (cmp ?h) (heap ?h)" by simp
  have ne: "heap ?h \<noteq> []" by simp
  have v: "heap (snd (extract_heap ?h)) = [5, 3, 4, 1]" by code_simp
  from extract_root_and_restore [OF con hp' ne]
  have a: "fst (extract_heap ?h) = Inr (heap ?h ! 0)"
    and b: "heap_property (cmp ?h) (heap (snd (extract_heap ?h)))" by blast+
  show ?thesis
    using a b hp v consistent_default_cmp by simp
qed

text \<open>
  Claim C4.  \<open>extract()\<close> fails with \<open>EmptyHeap\<close> if and only if the heap has no
  elements, and the failed call leaves the object unchanged.  No other public method
  fails: \<open>add\<close> and \<open>update\<close> always complete, and so does \<open>changeKey\<close> at an index
  below the length; \<open>top\<close> is a total function.
\<close>

theorem extract_empty_error:
  "(fst (extract_heap h) = Inl EmptyHeap \<longleftrightarrow> length (heap h) = 0)
   \<and> (length (heap h) = 0 \<longrightarrow> snd (extract_heap h) = h)
   \<and> (\<exists>r. add v h = Some r)
   \<and> (\<exists>h'. update node h = Some h')
   \<and> (i < length (heap h) \<longrightarrow> (\<exists>r. changeKey i v h = Some r))"
proof -
  have "fst (extract_heap h) = Inl EmptyHeap \<longleftrightarrow> length (heap h) = 0"
    using extract_nonempty(1) [of h] by (cases "heap h = []") (simp_all add: extract_heap_def)
  moreover have "length (heap h) = 0 \<longrightarrow> snd (extract_heap h) = h"
    by (simp add: extract_heap_def)
  moreover have "\<exists>r. add v h = Some r"
    using add_completes [of v h] by blast
  moreover have "\<exists>h'. update node h = Some h'"
  proof (cases "node \<in> set (heap h)")
    case True
    then have "nat (indexOf (heap h) node) < length (heap h)"
      using indexOf_present by fastforce
    from changeKey_completes [OF this, of node]
    obtain k h' where "changeKey (nat (indexOf (heap h) node)) node h = Some (k, h')"
      by blast
    then show ?thesis using True by (simp add: update_present)
  next
    case False
    then show ?thesis by (simp add: update_absent)
  qed
  moreover have "i < length (heap h) \<longrightarrow> (\<exists>r. changeKey i v h = Some r)"
    using changeKey_completes [of i h v] by blast
  ultimately show ?thesis by blast
qed

text \<open>The empty heap of the constructor, and a heap of two numbers.\<close>

theorem extract_empty_error_witness:
  "length (heap new_Heap_default) = 0
   \<and> fst (extract_heap new_Heap_default) = Inl EmptyHeap
   \<and> snd (extract_heap new_Heap_default) = new_Heap_default
   \<and> (0::nat) < length (heap \<lparr>heap = [4, 2], cmp = default_cmp\<rparr>)
   \<and> (\<exists>r. changeKey 0 1 \<lparr>heap = [4, 2], cmp = default_cmp\<rparr> = Some r)
   \<and> fst (extract_heap \<lparr>heap = [4, 2], cmp = default_cmp\<rparr>) \<noteq> Inl EmptyHeap"
proof -
  have e: "length (heap new_Heap_default) = 0" by (simp add: new_Heap_default_def)
  have n: "(0::nat) < length (heap \<lparr>heap = [4, 2], cmp = default_cmp\<rparr>)" by simp
  show ?thesis
    using e n extract_empty_error [where h = new_Heap_default]
      extract_empty_error [where h = "\<lparr>heap = [4, 2], cmp = default_cmp\<rparr>" and i = 0 and v = 1]
    by simp
qed

text \<open>
  Claim C5.  A sequence of \<open>add\<close> and \<open>extract\<close> calls from the empty heap in which, at
  every prefix, there are no more \<open>extract\<close> than \<open>add\<close> calls runs to its end without
  a failed \<open>extract\<close>, and the final length is the number of \<open>add\<close> calls minus the
  number of \<open>extract\<close> calls.
\<close>

theorem size_law:
  assumes only: "list_all (\<lambda>x. is_Add x \<or> x = Extract) ops"
    and prefix: "\<forall>n \<le> length ops. extracts (take n ops) \<le> adds (take n ops)"
  shows "\<exists>h. run (new_Heap c) ops = Some h
           \<and> length (heap h) = adds ops - extracts ops"
proof -
  have "\<forall>n \<le> length ops.
          extracts (take n ops) \<le> length (heap (new_Heap c)) + adds (take n ops)"
    using prefix by (simp add: new_Heap_def)
  from run_size [OF only this] obtain h where h: "run (new_Heap c) ops = Some h"
    "length (heap h) + extracts ops = length (heap (new_Heap c)) + adds ops" by blast
  then have "length (heap h) = adds ops - extracts ops" by (simp add: new_Heap_def)
  with h(1) show ?thesis by blast
qed

text \<open>Four \<open>add\<close> and two \<open>extract\<close> calls, interleaved.\<close>

theorem size_law_witness:
  "list_all (\<lambda>x. is_Add x \<or> x = Extract) [Add 5, Add 3, Extract, Add 8, Extract, Add (1::int)]
   \<and> list_all
        (\<lambda>n. extracts (take n [Add 5, Add 3, Extract, Add 8, Extract, Add (1::int)])
               \<le> adds (take n [Add 5, Add 3, Extract, Add 8, Extract, Add (1::int)]))
        [0..<7]
   \<and> (\<exists>h. run (new_Heap default_cmp) [Add 5, Add 3, Extract, Add 8, Extract, Add 1] = Some h
          \<and> length (heap h) = 2)"
proof -
  let ?ops = "[Add 5, Add 3, Extract, Add 8, Extract, Add (1::int)]"
  have only: "list_all (\<lambda>x. is_Add x \<or> x = Extract) ?ops" by simp
  have pre: "list_all (\<lambda>n. extracts (take n ?ops) \<le> adds (take n ?ops)) [0..<7]"
    by code_simp
  have "\<forall>n \<le> length ?ops. extracts (take n ?ops) \<le> adds (take n ?ops)"
  proof (intro allI impI)
    fix n assume "n \<le> length ?ops"
    then have "n \<in> set [0..<7]" by simp
    with pre show "extracts (take n ?ops) \<le> adds (take n ?ops)"
      unfolding list_all_iff by blast
  qed
  then have "\<exists>h. run (new_Heap default_cmp) ?ops = Some h
           \<and> length (heap h) = adds ?ops - extracts ?ops"
    using only by (intro size_law)
  moreover have "adds ?ops - extracts ?ops = 2" by (simp add: adds_def extracts_def)
  ultimately show ?thesis using only pre by simp
qed

text \<open>
  Claim C6.  On a heap that satisfies the heap property, with a consistent comparison
  function, \<open>add(v)\<close> appends \<open>v\<close> and moves it upward; the downward pass that follows
  changes nothing, so the array left is the one the upward pass produced, and the index
  \<open>j\<close> that \<open>add\<close> returns is where \<open>v\<close> rests: \<open>elements[j] = v\<close>.
\<close>

theorem add_returns_resting_index:
  assumes con: "consistent (cmp h)" and hp: "heap_property (cmp h) (heap h)"
  shows "\<exists>j ys. changeKey_loop (cmp h) v (length (heap h)) (heap h @ [v]) = (j, ys)
           \<and> heapify (cmp h) j ys = ys
           \<and> add v h = Some (j, h\<lparr>heap := ys\<rparr>)
           \<and> j < length ys \<and> ys ! j = v"
proof -
  obtain j ys where loop: "changeKey_loop (cmp h) v (length (heap h)) (heap h @ [v]) = (j, ys)"
    by (cases "changeKey_loop (cmp h) v (length (heap h)) (heap h @ [v])")
  have "length ys = length (heap h @ [v]) \<and> j \<le> length (heap h) \<and> ys ! j = v
          \<and> mset ys = mset (heap h @ [v])"
    using _ _ loop by (rule changeKey_loop_facts) simp_all
  then have "j < length ys" "ys ! j = v" by simp_all
  then show ?thesis
    using loop add_upward_only(1,2) [OF con hp loop] by blast
qed

text \<open>Adding 7 to a heap of four numbers moves it up one level.\<close>

theorem add_returns_resting_index_witness:
  "consistent default_cmp \<and> heap_property default_cmp [8, 4, 5, 1]
   \<and> (\<exists>j h'. add 7 \<lparr>heap = [8, 4, 5, 1], cmp = default_cmp\<rparr> = Some (j, h')
          \<and> j = 1 \<and> heap h' = [8, 7, 5, 1, 4] \<and> heap h' ! j = 7)"
proof -
  let ?h = "\<lparr>heap = [8, 4, 5, 1], cmp = default_cmp\<rparr>"
  have con: "consistent (cmp ?h)" by (simp add: consistent_default_cmp)
  have hp: "heap_property default_cmp [8, 4, 5, 1]" by code_simp
  then have hp': "heap_property (cmp ?h) (heap ?h)" by simp
  have ev: "changeKey_loop (cmp ?h) 7 (length (heap ?h)) (heap ?h @ [7]) = (1, [8, 7, 5, 1, 4])"
    by code_simp
  obtain j ys where r: "changeKey_loop (cmp ?h) 7 (length (heap ?h)) (heap ?h @ [7]) = (j, ys)"
      "add 7 ?h = Some (j, ?h\<lparr>heap := ys\<rparr>)" "ys ! j = 7"
    using add_returns_resting_index [OF con hp', of 7] by blast
  have "j = 1" "ys = [8, 7, 5, 1, 4]" using r(1) ev by simp_all
  then show ?thesis using r(2,3) hp consistent_default_cmp by simp
qed

text \<open>
  Claim C7.  On a heap that satisfies the heap property, with a consistent comparison
  function, \<open>changeKey(i, v)\<close> at an index \<open>i\<close> below the length overwrites
  \<open>elements[i]\<close> with \<open>v\<close>, runs the upward pass from \<open>i\<close>, and returns the index \<open>k\<close> at
  which that pass stops, where \<open>v\<close> then sits.  The array left is the downward pass from
  \<open>k\<close>; whenever that pass changes nothing, \<open>elements[k] = v\<close> after the call, and this
  is so whenever the upward pass moved \<open>v\<close> at least one step (\<open>k < i\<close>), and whenever
  no child of \<open>k\<close> outranks \<open>v\<close>.
\<close>

theorem changeKey_returned_index:
  assumes con: "consistent (cmp h)" and hp: "heap_property (cmp h) (heap h)"
    and i: "i < length (heap h)"
  shows "\<exists>k ys. changeKey_loop (cmp h) v i ((heap h)[i := v]) = (k, ys)
           \<and> changeKey i v h = Some (k, h\<lparr>heap := heapify (cmp h) k ys\<rparr>)
           \<and> k \<le> i \<and> ys ! k = v
           \<and> (heapify (cmp h) k ys = ys \<longrightarrow> heapify (cmp h) k ys ! k = v)
           \<and> (k < i \<longrightarrow> heapify (cmp h) k ys ! k = v)
           \<and> (children_ok (cmp h) ys k \<longrightarrow> heapify (cmp h) k ys ! k = v)"
proof -
  define xs where "xs = (heap h)[i := v]"
  obtain k ys where loop: "changeKey_loop (cmp h) v i xs = (k, ys)"
    by (cases "changeKey_loop (cmp h) v i xs")
  have at: "xs ! i = v" and il: "i < length xs" using i by (simp_all add: xs_def)
  have f: "length ys = length xs \<and> k \<le> i \<and> ys ! k = v \<and> mset ys = mset xs"
    using il at loop by (rule changeKey_loop_facts)
  have ck: "changeKey i v h = Some (k, h\<lparr>heap := heapify (cmp h) k ys\<rparr>)"
    using i loop [unfolded xs_def] by (rule changeKey_in_range)
  have ex: "heap_except (cmp h) xs i"
    unfolding xs_def using con hp i by (rule write_except)
  have moved: "heapify (cmp h) k ys = ys" if "k < i"
    using con ex il loop [folded at] by (rule reposition_stays) (simp add: that)
  have settled: "heapify (cmp h) k ys = ys" if "children_ok (cmp h) ys k"
    using that by (intro heapify_id largest_children_ok)
  show ?thesis
    using loop [unfolded xs_def] ck f moved settled by auto
qed

text \<open>Raising the last of five numbers to 10 moves it to the root.\<close>

theorem changeKey_returned_index_witness:
  "consistent default_cmp \<and> heap_property default_cmp [9, 7, 8, 3, 5]
   \<and> (4::nat) < length [9, 7, 8, 3, 5 :: int]
   \<and> (\<exists>k h'. changeKey 4 10 \<lparr>heap = [9, 7, 8, 3, 5], cmp = default_cmp\<rparr> = Some (k, h')
          \<and> k = 0 \<and> k < 4 \<and> heap h' = [10, 9, 8, 3, 7] \<and> heap h' ! k = 10)"
proof -
  let ?h = "\<lparr>heap = [9, 7, 8, 3, 5], cmp = default_cmp\<rparr>"
  have con: "consistent (cmp ?h)" by (simp add: consistent_default_cmp)
  have hp: "heap_property default_cmp [9, 7, 8, 3, 5]" by code_simp
  then have hp': "heap_property (cmp ?h) (heap ?h)" by simp
  have i: "4 < length (heap ?h)" by simp
  have ev: "changeKey_loop (cmp ?h) 10 4 ((heap ?h)[4 := 10]) = (0, [10, 9, 8, 3, 7])"
    by code_simp
  obtain k ys where r: "changeKey_loop (cmp ?h) 10 4 ((heap ?h)[4 := 10]) = (k, ys)"
      "changeKey 4 10 ?h = Some (k, ?h\<lparr>heap := heapify (cmp ?h) k ys\<rparr>)"
      "k < 4 \<longrightarrow> heapify (cmp ?h) k ys ! k = 10"
    using changeKey_returned_index [OF con hp' i, of 10] by blast
  have k: "k = 0" "ys = [10, 9, 8, 3, 7]" using r(1) ev by simp_all
  have hv: "heapify default_cmp 0 [10, 9, 8, 3, 7] = [10, 9, 8, 3, 7]" by code_simp
  show ?thesis using r(2,3) k hp consistent_default_cmp hv by simp
qed

text \<open>
  Claim C8.  \<open>top()\<close> is a pure observer: on every heap it returns the element at
  position 0, or the absent value when the heap is empty, and leaves the object as it
  was; so a second \<open>top()\<close> right after it returns the same value, and the length is
  unchanged.
\<close>

theorem top_pure_observer:
  "snd (top_heap h) = h
   \<and> fst (top_heap h) = (if heap h = [] then None else Some (heap h ! 0))
   \<and> fst (top_heap (snd (top_heap h))) = fst (top_heap h)
   \<and> length (heap (snd (top_heap h))) = length (heap h)"
  by (cases "heap h") (simp_all add: top_heap_def)

text \<open>
  Claim C9.  \<open>update(node)\<close> scans for \<open>node\<close>: when it does not occur the object is
  left unchanged, and when it occurs \<open>changeKey\<close> is called with the same value at the
  first index that holds it.
\<close>

theorem update_linear_scan:
  "(node \<notin> set (heap h) \<longrightarrow> update node h = Some h)
   \<and> (node \<in> set (heap h) \<longrightarrow>
        (\<exists>i < length (heap h). heap h ! i = node \<and> (\<forall>j < i. heap h ! j \<noteq> node)
           \<and> update node h = map_option snd (changeKey i node h)))"
proof (intro conjI impI)
  assume "node \<notin> set (heap h)"
  then show "update node h = Some h" by (rule update_absent)
next
  assume a: "node \<in> set (heap h)"
  define i where "i = nat (indexOf (heap h) node)"
  have "i < length (heap h) \<and> heap h ! i = node \<and> (\<forall>j < i. heap h ! j \<noteq> node)"
    using indexOf_present [OF a] by (simp add: i_def)
  moreover have "update node h = map_option snd (changeKey i node h)"
    using a unfolding i_def by (rule update_present)
  ultimately show "\<exists>i < length (heap h). heap h ! i = node \<and> (\<forall>j < i. heap h ! j \<noteq> node)
           \<and> update node h = map_option snd (changeKey i node h)" by blast
qed

text \<open>A heap in which 5 occurs twice and 9 does not occur.\<close>

theorem update_linear_scan_witness:
  "(9::int) \<notin> set (heap \<lparr>heap = [7, 5, 5, 1], cmp = default_cmp\<rparr>)
   \<and> map_option heap (update 9 \<lparr>heap = [7, 5, 5, 1], cmp = default_cmp\<rparr>) = Some [7, 5, 5, 1]
   \<and> (5::int) \<in> set (heap \<lparr>heap = [7, 5, 5, 1], cmp = default_cmp\<rparr>)
   \<and> map_option heap (update 5 \<lparr>heap = [7, 5, 5, 1], cmp = default_cmp\<rparr>)
       = map_option (heap \<circ> snd) (changeKey 1 5 \<lparr>heap = [7, 5, 5, 1], cmp = default_cmp\<rparr>)"
proof -
  let ?h = "\<lparr>heap = [7, 5, 5, 1], cmp = default_cmp\<rparr>"
  have a: "(9::int) \<notin> set (heap ?h)" by simp
  have b: "(5::int) \<in> set (heap ?h)" by simp
  have c: "update 9 ?h = Some ?h" using update_linear_scan [of 9 ?h] a by blast
  obtain i where i: "i < length (heap ?h)" "heap ?h ! i = 5" "\<forall>j < i. heap ?h ! j \<noteq> 5"
      "update 5 ?h = map_option snd (changeKey i 5 ?h)"
    using update_linear_scan [of 5 ?h] b by blast
  have "i = 1"
  proof (rule ccontr)
    assume "i \<noteq> 1"
    then have "i = 0 \<or> 1 < i" by arith
    then show False using i(2,3) by auto
  qed
  then show ?thesis using a b c i(4) by (simp add: option.map_comp)
qed

text \<open>
  Claim C10.  The passes only permute the stored elements.  On every heap, \<open>add(v)\<close>
  leaves the old multiset of elements plus one \<open>v\<close>; on every non-empty heap,
  \<open>extract()\<close> leaves the old multiset minus one occurrence of the value it returns;
  and \<open>update(node)\<close> for a \<open>node\<close> that occurs leaves the multiset unchanged.
\<close>

theorem interface_multisets:
  "(\<exists>j h'. add v h = Some (j, h') \<and> mset (heap h') = add_mset v (mset (heap h)))
   \<and> (heap h \<noteq> [] \<longrightarrow>
        (\<exists>r. fst (extract_heap h) = Inr r
           \<and> mset (heap (snd (extract_heap h))) = mset (heap h) - {#r#}))
   \<and> (node \<in> set (heap h) \<longrightarrow>
        (\<exists>h'. update node h = Some h' \<and> mset (heap h') = mset (heap h)))"
proof (intro conjI impI)
  obtain j h' where ad: "add v h = Some (j, h')" using add_completes [of v h] by blast
  then have "mset (heap h') = add_mset v (mset (heap h))" by (rule add_facts(1))
  with ad show "\<exists>j h'. add v h = Some (j, h') \<and> mset (heap h') = add_mset v (mset (heap h))"
    by blast
next
  assume ne: "heap h \<noteq> []"
  have "mset (heap (snd (extract_heap h))) = mset (heap h) - {#heap h ! 0#}"
  proof (cases "length (heap h) = 1")
    case True
    then obtain a where "heap h = [a]" by (cases "heap h") auto
    then show ?thesis using extract_nonempty(2) [OF ne] by simp
  next
    case False
    then have "1 < length (heap h)" using ne by (cases "heap h") auto
    then show ?thesis using False extract_nonempty(2) [OF ne] by (simp add: mset_promote_last)
  qed
  then show "\<exists>r. fst (extract_heap h) = Inr r
           \<and> mset (heap (snd (extract_heap h))) = mset (heap h) - {#r#}"
    using extract_nonempty(1) [OF ne] by blast
next
  assume a: "node \<in> set (heap h)"
  define i where "i = nat (indexOf (heap h) node)"
  have i: "i < length (heap h)" "heap h ! i = node"
    using indexOf_present [OF a] by (simp_all add: i_def)
  obtain k h' where ck: "changeKey i node h = Some (k, h')"
    using changeKey_completes [OF i(1), of node] by blast
  have "update node h = Some h'" using update_present [OF a] ck by (simp add: i_def)
  moreover have "(heap h)[i := node] = heap h"
    using i(2) by (simp add: list_update_same_conv i(1))
  then have "mset (heap h') = mset (heap h)"
    using changeKey_facts(1) [OF i(1) ck] by simp
  ultimately show "\<exists>h'. update node h = Some h' \<and> mset (heap h') = mset (heap h)" by blast
qed

text \<open>The three calls on the heap of five numbers.\<close>

theorem interface_multisets_witness:
  "heap \<lparr>heap = [8, 5, 4, 3, 1], cmp = default_cmp\<rparr> \<noteq> []
   \<and> (4::int) \<in> set (heap \<lparr>heap = [8, 5, 4, 3, 1], cmp = default_cmp\<rparr>)
   \<and> (\<exists>r. fst (extract_heap \<lparr>heap = [8, 5, 4, 3, 1], cmp = default_cmp\<rparr>) = Inr r
          \<and> mset (heap (snd (extract_heap \<lparr>heap = [8, 5, 4, 3, 1], cmp = default_cmp\<rparr>)))
              = {#8, 5, 4, 3, 1#} - {#r#})
   \<and> (\<exists>h'. update 4 \<lparr>heap = [8, 5, 4, 3, 1], cmp = default_cmp\<rparr> = Some h'
          \<and> mset (heap h') = {#8, 5, 4, 3, 1#})
   \<and> (\<exists>j h'. add 6 \<lparr>heap = [8, 5, 4, 3, 1], cmp = default_cmp\<rparr> = Some (j, h')
          \<and> mset (heap h') = {#6, 8, 5, 4, 3, 1#})"
proof -
  let ?h = "\<lparr>heap = [8, 5, 4, 3, 1], cmp = default_cmp\<rparr>"
  have ne: "heap ?h \<noteq> []" by simp
  have a: "(4::int) \<in> set (heap ?h)" by simp
  show ?thesis
    using interface_multisets [of 6 ?h 4] ne a by simp
qed

end
